theory Spec2Isabelle
  imports Main "HOL-Library.Word"
begin

unbundle bit_operations_syntax

section \<open>The TWI slave driver of twiSlave.c\<close>

text \<open>
  The driver keeps two circular byte buffers (receive and transmit), each with a head and
  a tail index of type \<open>uint8_t\<close>, and talks to the TWI hardware through the registers
  TWAR, TWCR, TWDR and TWSR. The model is a record of exactly these variables and
  registers; every function of the source becomes a function on that record.
\<close>

type_synonym u8 = "8 word"

subsection \<open>The header twiSlave.h\<close>

text \<open>
  twiSlave.c includes twiSlave.h for the two buffer sizes and the two index masks. The
  sizes are taken as parameters of the model.
\<close>

record twi_header =
  TWI_RX_BUFFER_SIZE :: nat
  TWI_TX_BUFFER_SIZE :: nat

text \<open>
  Modelled from the spec: the macros TWI_RX_BUFFER_MASK and TWI_TX_BUFFER_MASK of the
  missing header twiSlave.h. The spec describes a buffer of capacity C, a power of two,
  whose indices wrap modulo C through a bitmask (capacity 8 has mask 0x07): the mask is
  the size minus one.
\<close>

definition TWI_RX_BUFFER_MASK :: "twi_header \<Rightarrow> u8" where
  "TWI_RX_BUFFER_MASK h = of_nat (TWI_RX_BUFFER_SIZE h - 1)"

definition TWI_TX_BUFFER_MASK :: "twi_header \<Rightarrow> u8" where
  "TWI_TX_BUFFER_MASK h = of_nat (TWI_TX_BUFFER_SIZE h - 1)"

text \<open>
  Modelled from the spec: the sizes the missing header may choose. A capacity is a power
  of two, and it is indexed by a \<open>uint8_t\<close>, so it is at most 256.
\<close>

definition buffer_size_ok :: "nat \<Rightarrow> bool" where
  "buffer_size_ok n = (n \<in> {1, 2, 4, 8, 16, 32, 64, 128, 256})"

definition header_ok :: "twi_header \<Rightarrow> bool" where
  "header_ok h = (buffer_size_ok (TWI_RX_BUFFER_SIZE h) \<and> buffer_size_ok (TWI_TX_BUFFER_SIZE h))"

subsection \<open>Status codes and control bits\<close>

definition TWI_SRX_ADR_ACK :: u8 where "TWI_SRX_ADR_ACK = 0x60"
definition TWI_SRX_ADR_ACK_M_ARB_LOST :: u8 where "TWI_SRX_ADR_ACK_M_ARB_LOST = 0x68"
definition TWI_SRX_GEN_ACK :: u8 where "TWI_SRX_GEN_ACK = 0x70"
definition TWI_SRX_GEN_ACK_M_ARB_LOST :: u8 where "TWI_SRX_GEN_ACK_M_ARB_LOST = 0x78"
definition TWI_SRX_ADR_DATA_ACK :: u8 where "TWI_SRX_ADR_DATA_ACK = 0x80"
definition TWI_SRX_ADR_DATA_NACK :: u8 where "TWI_SRX_ADR_DATA_NACK = 0x88"
definition TWI_SRX_GEN_DATA_ACK :: u8 where "TWI_SRX_GEN_DATA_ACK = 0x90"
definition TWI_SRX_GEN_DATA_NACK :: u8 where "TWI_SRX_GEN_DATA_NACK = 0x98"
definition TWI_SRX_STOP_RESTART :: u8 where "TWI_SRX_STOP_RESTART = 0xA0"
definition TWI_STX_ADR_ACK :: u8 where "TWI_STX_ADR_ACK = 0xA8"
definition TWI_STX_ADR_ACK_M_ARB_LOST :: u8 where "TWI_STX_ADR_ACK_M_ARB_LOST = 0xB0"
definition TWI_STX_DATA_ACK :: u8 where "TWI_STX_DATA_ACK = 0xB8"
definition TWI_STX_DATA_NACK :: u8 where "TWI_STX_DATA_NACK = 0xC0"
definition TWI_STX_DATA_ACK_LAST_BYTE :: u8 where "TWI_STX_DATA_ACK_LAST_BYTE = 0xC8"
definition TWI_NO_STATE :: u8 where "TWI_NO_STATE = 0xF8"
definition TWI_BUS_ERROR :: u8 where "TWI_BUS_ERROR = 0x00"

text \<open>
  The bit positions of the control register TWCR come from the device header
  \<open>avr/io.h\<close> of the compiler's library, which is the same for every ATmega with a TWI
  unit: TWINT 7, TWEA 6, TWSTA 5, TWSTO 4, TWWC 3, TWEN 2, TWIE 0.
\<close>

definition TWINT :: nat where "TWINT = 7"
definition TWEA :: nat where "TWEA = 6"
definition TWSTA :: nat where "TWSTA = 5"
definition TWSTO :: nat where "TWSTO = 4"
definition TWWC :: nat where "TWWC = 3"
definition TWEN :: nat where "TWEN = 2"
definition TWIE :: nat where "TWIE = 0"

subsection \<open>The state\<close>

record twi_state =
  rxBuf :: "u8 list"
  rxHead :: u8
  rxTail :: u8
  txBuf :: "u8 list"
  txHead :: u8
  txTail :: u8
  TWAR :: u8
  TWCR :: u8
  TWDR :: u8
  TWSR :: u8

text \<open>
  An array access of C outside the array is undefined behaviour. The model makes it a
  result of its own: \<open>None\<close>.
\<close>

definition array_read :: "u8 list \<Rightarrow> u8 \<Rightarrow> u8 option" where
  "array_read a i = (if unat i < length a then Some (a ! unat i) else None)"

definition array_write :: "u8 list \<Rightarrow> u8 \<Rightarrow> u8 \<Rightarrow> u8 list option" where
  "array_write a i v = (if unat i < length a then Some (a[unat i := v]) else None)"

subsection \<open>The functions of twiSlave.c\<close>

definition flushTwiBuffers :: "twi_state \<Rightarrow> twi_state" where
  "flushTwiBuffers s = s\<lparr>rxTail := 0, rxHead := 0, txTail := 0, txHead := 0\<rparr>"

definition twiSlaveInit :: "u8 \<Rightarrow> twi_state \<Rightarrow> twi_state" where
  "twiSlaveInit adrs s =
     s\<lparr>TWAR := push_bit 1 adrs OR 0,
       TWCR := push_bit TWEN 1 OR push_bit TWIE 0 OR push_bit TWINT 0 OR push_bit TWEA 0
               OR push_bit TWSTA 0 OR push_bit TWSTO 0 OR push_bit TWWC 0\<rparr>"

definition twiSlaveEnable :: "twi_state \<Rightarrow> twi_state" where
  "twiSlaveEnable s =
     s\<lparr>TWCR := push_bit TWEN 1 OR push_bit TWIE 1 OR push_bit TWINT 1 OR push_bit TWEA 1
               OR push_bit TWSTA 0 OR push_bit TWSTO 0 OR push_bit TWWC 0\<rparr>"

text \<open>
  The two producers return \<open>void\<close>. The model keeps that as a result of type \<open>unit\<close>
  beside the new state, so that what the caller is told is part of the model.
\<close>

definition twiTransmitByte :: "twi_header \<Rightarrow> u8 \<Rightarrow> twi_state \<Rightarrow> (unit \<times> twi_state) option" where
  "twiTransmitByte h data s =
     (let tmphead = (txHead s + 1) AND TWI_TX_BUFFER_MASK h in
      if tmphead = txTail s then Some ((), s)
      else case array_write (txBuf s) tmphead data of
             None \<Rightarrow> None
           | Some b \<Rightarrow> Some ((), s\<lparr>txBuf := b, txHead := tmphead\<rparr>))"

definition twiReceiveByte :: "twi_header \<Rightarrow> twi_state \<Rightarrow> (u8 \<times> twi_state) option" where
  "twiReceiveByte h s =
     (if rxHead s = rxTail s then Some (0x88, s)
      else let t = (rxTail s + 1) AND TWI_RX_BUFFER_MASK h in
           case array_read (rxBuf s) t of
             None \<Rightarrow> None
           | Some v \<Rightarrow> Some (v, s\<lparr>rxTail := t\<rparr>))"

definition twiDataInReceiveBuffer :: "twi_state \<Rightarrow> bool" where
  "twiDataInReceiveBuffer s = (rxHead s \<noteq> rxTail s)"

definition twiDataInTransmitBuffer :: "twi_state \<Rightarrow> bool" where
  "twiDataInTransmitBuffer s = (txHead s \<noteq> txTail s)"

definition twiClearOutput :: "twi_state \<Rightarrow> twi_state" where
  "twiClearOutput s = s\<lparr>txTail := 0, txHead := 0\<rparr>"

definition twiStuffRxBuf :: "twi_header \<Rightarrow> u8 \<Rightarrow> twi_state \<Rightarrow> (unit \<times> twi_state) option" where
  "twiStuffRxBuf h data s =
     (let tmphead = (rxHead s + 1) AND TWI_RX_BUFFER_MASK h in
      if tmphead = rxTail s then Some ((), s)
      else case array_write (rxBuf s) tmphead data of
             None \<Rightarrow> None
           | Some b \<Rightarrow> Some ((), s\<lparr>rxBuf := b, rxHead := tmphead\<rparr>))"

text \<open>
  The interrupt service routine reads the status register TWSR, which the hardware has set
  for the event, and for a received byte the data register TWDR. The branches are those
  of the \<open>switch\<close>, in its order; the labels commented out in the source fall to
  \<open>default\<close>.
\<close>

definition TWCR_next_event :: u8 where
  "TWCR_next_event = push_bit TWEN 1 OR push_bit TWIE 1 OR push_bit TWINT 1 OR push_bit TWEA 1"

definition TWCR_recover :: u8 where
  "TWCR_recover = push_bit TWSTO 1 OR push_bit TWINT 1"

definition ISR :: "twi_header \<Rightarrow> twi_state \<Rightarrow> twi_state option" where
  "ISR h s =
     (let st = TWSR s in
      if st = TWI_SRX_ADR_ACK then Some (s\<lparr>TWCR := TWCR_next_event\<rparr>)
      else if st = TWI_SRX_ADR_DATA_ACK \<or> st = TWI_SRX_GEN_DATA_ACK then
        (case twiStuffRxBuf h (TWDR s) s of
           None \<Rightarrow> None
         | Some (u, s') \<Rightarrow> Some (s'\<lparr>TWCR := TWCR_next_event\<rparr>))
      else if st = TWI_SRX_GEN_ACK then Some (s\<lparr>TWCR := TWCR_next_event\<rparr>)
      else if st = TWI_STX_ADR_ACK \<or> st = TWI_STX_DATA_ACK then
        (if txHead s \<noteq> txTail s then
           (let t = (txTail s + 1) AND TWI_TX_BUFFER_MASK h in
            case array_read (txBuf s) t of
              None \<Rightarrow> None
            | Some v \<Rightarrow> Some (s\<lparr>txTail := t, TWDR := v, TWCR := TWCR_next_event\<rparr>))
         else Some (s\<lparr>TWDR := 0x88, TWCR := TWCR_next_event\<rparr>))
      else if st = TWI_STX_DATA_NACK then Some (s\<lparr>TWCR := TWCR_next_event\<rparr>)
      else if st = TWI_SRX_STOP_RESTART then Some (s\<lparr>TWCR := TWCR_next_event\<rparr>)
      else if st = TWI_SRX_ADR_DATA_NACK \<or> st = TWI_SRX_GEN_DATA_NACK
              \<or> st = TWI_STX_DATA_ACK_LAST_BYTE \<or> st = TWI_NO_STATE \<or> st = TWI_BUS_ERROR then
        Some (s\<lparr>TWCR := TWCR_recover\<rparr>)
      else Some (s\<lparr>TWCR := TWCR_next_event\<rparr>))"

subsection \<open>Well-formed states and the bytes a buffer holds\<close>

text \<open>
  The arrays have the sizes of the header, and the four indices stay below them.
\<close>

definition bufs_ok :: "twi_header \<Rightarrow> twi_state \<Rightarrow> bool" where
  "bufs_ok h s = (length (rxBuf s) = TWI_RX_BUFFER_SIZE h \<and> length (txBuf s) = TWI_TX_BUFFER_SIZE h)"

definition idx_ok :: "twi_header \<Rightarrow> twi_state \<Rightarrow> bool" where
  "idx_ok h s = (unat (rxHead s) < TWI_RX_BUFFER_SIZE h \<and> unat (rxTail s) < TWI_RX_BUFFER_SIZE h
               \<and> unat (txHead s) < TWI_TX_BUFFER_SIZE h \<and> unat (txTail s) < TWI_TX_BUFFER_SIZE h)"

text \<open>
  The number of bytes pending in a circular buffer of size \<open>n\<close> is the distance
  from the tail forward to the head, going around the end of the array. The bytes
  themselves, oldest first, are the slots after the tail up to the head.
\<close>

definition ring_dist :: "nat \<Rightarrow> nat \<Rightarrow> nat \<Rightarrow> nat" where
  "ring_dist n H T = (if T \<le> H then H - T else H + n - T)"

definition fifo_pending :: "nat \<Rightarrow> u8 \<Rightarrow> u8 \<Rightarrow> nat" where
  "fifo_pending n hdx tlx = ring_dist n (unat hdx) (unat tlx)"

definition fifo_contents :: "nat \<Rightarrow> u8 list \<Rightarrow> u8 \<Rightarrow> u8 \<Rightarrow> u8 list" where
  "fifo_contents n buf hdx tlx =
     map (\<lambda>i. buf ! ((unat tlx + i) mod n)) [1 ..< Suc (fifo_pending n hdx tlx)]"

definition rx_pending :: "twi_header \<Rightarrow> twi_state \<Rightarrow> nat" where
  "rx_pending h s = fifo_pending (TWI_RX_BUFFER_SIZE h) (rxHead s) (rxTail s)"

definition tx_pending :: "twi_header \<Rightarrow> twi_state \<Rightarrow> nat" where
  "tx_pending h s = fifo_pending (TWI_TX_BUFFER_SIZE h) (txHead s) (txTail s)"

definition rx_contents :: "twi_header \<Rightarrow> twi_state \<Rightarrow> u8 list" where
  "rx_contents h s = fifo_contents (TWI_RX_BUFFER_SIZE h) (rxBuf s) (rxHead s) (rxTail s)"

definition tx_contents :: "twi_header \<Rightarrow> twi_state \<Rightarrow> u8 list" where
  "tx_contents h s = fifo_contents (TWI_TX_BUFFER_SIZE h) (txBuf s) (txHead s) (txTail s)"

subsection \<open>Callers and the bus\<close>

text \<open>
  A producer and a consumer working on the receive buffer: a run is a list of calls of
  twiStuffRxBuf and twiReceiveByte. For each call of twiReceiveByte the run records what
  twiDataInReceiveBuffer said just before it and the byte returned.
\<close>

datatype rx_op = Stuff u8 | Receive

fun rx_run :: "twi_header \<Rightarrow> rx_op list \<Rightarrow> twi_state \<Rightarrow> ((bool \<times> u8) list \<times> twi_state) option" where
  "rx_run h [] s = Some ([], s)"
| "rx_run h (Stuff d # ops) s =
     (case twiStuffRxBuf h d s of
        None \<Rightarrow> None
      | Some (u, s') \<Rightarrow> rx_run h ops s')"
| "rx_run h (Receive # ops) s =
     (case twiReceiveByte h s of
        None \<Rightarrow> None
      | Some (v, s') \<Rightarrow>
          (case rx_run h ops s' of
             None \<Rightarrow> None
           | Some (outs, s'') \<Rightarrow> Some ((twiDataInReceiveBuffer s, v) # outs, s'')))"

text \<open>The bytes a run pushes, and the bytes it pops from a buffer that had data.\<close>

fun stuffed :: "rx_op list \<Rightarrow> u8 list" where
  "stuffed [] = []"
| "stuffed (Stuff d # ops) = d # stuffed ops"
| "stuffed (Receive # ops) = stuffed ops"

definition received :: "(bool \<times> u8) list \<Rightarrow> u8 list" where
  "received outs = map snd (filter fst outs)"

text \<open>
  A run never exceeds capacity - 1 pending bytes when every push finds fewer than
  capacity - 1 bytes pending.
\<close>

fun rx_never_full :: "twi_header \<Rightarrow> rx_op list \<Rightarrow> twi_state \<Rightarrow> bool" where
  "rx_never_full h [] s = True"
| "rx_never_full h (Stuff d # ops) s =
     (rx_pending h s < TWI_RX_BUFFER_SIZE h - 1 \<and>
      (case twiStuffRxBuf h d s of
         None \<Rightarrow> True
       | Some (u, s') \<Rightarrow> rx_never_full h ops s'))"
| "rx_never_full h (Receive # ops) s =
     (case twiReceiveByte h s of
        None \<Rightarrow> True
      | Some (v, s') \<Rightarrow> rx_never_full h ops s')"

text \<open>
  Everything that can happen to the driver: a call of one of its functions, or a bus
  event, for which the hardware sets the status register (and the data register) and
  runs the interrupt service routine.
\<close>

datatype twi_call =
    Call_flushTwiBuffers
  | Call_twiSlaveInit u8
  | Call_twiSlaveEnable
  | Call_twiTransmitByte u8
  | Call_twiReceiveByte
  | Call_twiClearOutput
  | Call_twiStuffRxBuf u8
  | Bus_event u8 u8

fun call :: "twi_header \<Rightarrow> twi_call \<Rightarrow> twi_state \<Rightarrow> twi_state option" where
  "call h Call_flushTwiBuffers s = Some (flushTwiBuffers s)"
| "call h (Call_twiSlaveInit a) s = Some (twiSlaveInit a s)"
| "call h Call_twiSlaveEnable s = Some (twiSlaveEnable s)"
| "call h (Call_twiTransmitByte d) s = map_option snd (twiTransmitByte h d s)"
| "call h Call_twiReceiveByte s = map_option snd (twiReceiveByte h s)"
| "call h Call_twiClearOutput s = Some (twiClearOutput s)"
| "call h (Call_twiStuffRxBuf d) s = map_option snd (twiStuffRxBuf h d s)"
| "call h (Bus_event status data) s = ISR h (s\<lparr>TWSR := status, TWDR := data\<rparr>)"

fun run_calls :: "twi_header \<Rightarrow> twi_call list \<Rightarrow> twi_state \<Rightarrow> twi_state option" where
  "run_calls h [] s = Some s"
| "run_calls h (c # cs) s =
     (case call h c s of
        None \<Rightarrow> None
      | Some s' \<Rightarrow> run_calls h cs s')"

text \<open>The state at program start: the statics of twiSlave.c are zero.\<close>

definition zero_init :: "twi_header \<Rightarrow> twi_state \<Rightarrow> bool" where
  "zero_init h s =
     (rxBuf s = replicate (TWI_RX_BUFFER_SIZE h) 0 \<and> rxHead s = 0 \<and> rxTail s = 0 \<and>
      txBuf s = replicate (TWI_TX_BUFFER_SIZE h) 0 \<and> txHead s = 0 \<and> txTail s = 0)"

text \<open>A header with two buffers of eight bytes, and a state for it, for concrete runs.\<close>

definition hdr8 :: twi_header where
  "hdr8 = \<lparr>TWI_RX_BUFFER_SIZE = 8, TWI_TX_BUFFER_SIZE = 8\<rparr>"

definition st0 :: twi_state where
  "st0 = \<lparr>rxBuf = [0, 0, 0, 0, 0, 0, 0, 0], rxHead = 0, rxTail = 0,
          txBuf = [0, 0, 0, 0, 0, 0, 0, 0], txHead = 0, txTail = 0,
          TWAR = 0, TWCR = 0, TWDR = 0, TWSR = 0xF8\<rparr>"

text \<open>A state in which each buffer holds the seven bytes 1 to 7 and is full.\<close>

definition st_full :: twi_state where
  "st_full = st0\<lparr>rxBuf := [0, 1, 2, 3, 4, 5, 6, 7], rxHead := 7, rxTail := 0,
                  txBuf := [0, 1, 2, 3, 4, 5, 6, 7], txHead := 7, txTail := 0\<rparr>"

section \<open>Properties\<close>

lemmas status_defs =
  TWI_SRX_ADR_ACK_def TWI_SRX_ADR_ACK_M_ARB_LOST_def TWI_SRX_GEN_ACK_def
  TWI_SRX_GEN_ACK_M_ARB_LOST_def TWI_SRX_ADR_DATA_ACK_def TWI_SRX_ADR_DATA_NACK_def
  TWI_SRX_GEN_DATA_ACK_def TWI_SRX_GEN_DATA_NACK_def TWI_SRX_STOP_RESTART_def
  TWI_STX_ADR_ACK_def TWI_STX_ADR_ACK_M_ARB_LOST_def TWI_STX_DATA_ACK_def
  TWI_STX_DATA_NACK_def TWI_STX_DATA_ACK_LAST_BYTE_def TWI_NO_STATE_def TWI_BUS_ERROR_def

lemmas bit_defs = TWINT_def TWEA_def TWSTA_def TWSTO_def TWWC_def TWEN_def TWIE_def

subsection \<open>Index arithmetic\<close>

lemma buffer_size_pow2: "buffer_size_ok n \<Longrightarrow> \<exists>k\<le>8. n = 2 ^ k"
proof -
  assume "buffer_size_ok n"
  then consider "n = 2^0" | "n = 2^1" | "n = 2^2" | "n = 2^3" | "n = 2^4" | "n = 2^5"
    | "n = 2^6" | "n = 2^7" | "n = 2^8"
    by (auto simp: buffer_size_ok_def)
  then show ?thesis
    by cases (rule exI [of _ 0] exI [of _ 1] exI [of _ 2] exI [of _ 3] exI [of _ 4]
        exI [of _ 5] exI [of _ 6] exI [of _ 7] exI [of _ 8], simp)+
qed

lemma buffer_size_pos: "buffer_size_ok n \<Longrightarrow> 0 < n"
  by (auto simp: buffer_size_ok_def)

lemma mask_of_size: "k \<le> 8 \<Longrightarrow> (of_nat (2 ^ k - 1) :: u8) = mask k"
  by (simp add: mask_eq_exp_minus_1)

lemma unat_take_bit_u8: "unat (take_bit k (y::u8)) = unat y mod 2 ^ k"
proof -
  have "unat (take_bit k y) = take_bit k (unat y)" by (rule unsigned_take_bit_eq)
  also have "\<dots> = unat y mod 2 ^ k" by (rule take_bit_eq_mod)
  finally show ?thesis .
qed

lemma mod_256_mod_pow2: "k \<le> 8 \<Longrightarrow> (a::nat) mod 2 ^ 8 mod 2 ^ k = a mod 2 ^ k"
proof -
  assume "k \<le> 8"
  then have "(2::nat) ^ k dvd 2 ^ 8" by (rule le_imp_power_dvd)
  then show ?thesis by (rule mod_mod_cancel)
qed

lemma unat_next_index:
  assumes "buffer_size_ok n"
  shows "unat ((x + 1) AND (of_nat (n - 1) :: u8)) = Suc (unat x) mod n"
proof -
  from assms obtain k where k: "k \<le> 8" "n = 2 ^ k"
    using buffer_size_pow2 by blast
  have "(x + 1) AND (of_nat (n - 1) :: u8) = take_bit k (x + 1)"
    using k mask_of_size [of k] by (simp only: take_bit_eq_mask)
  then have "unat ((x + 1) AND (of_nat (n - 1) :: u8)) = unat (x + 1) mod 2 ^ k"
    by (simp only: unat_take_bit_u8)
  also have "unat (x + 1) = (unat x + 1) mod 2 ^ 8"
    by (simp add: unat_word_ariths)
  also have "(unat x + 1) mod 2 ^ 8 mod 2 ^ k = (unat x + 1) mod 2 ^ k"
    using k(1) by (rule mod_256_mod_pow2)
  finally show ?thesis using k by simp
qed

lemma next_index_less: "buffer_size_ok n \<Longrightarrow> unat ((x + 1) AND (of_nat (n - 1) :: u8)) < n"
  by (simp only: unat_next_index) (simp add: buffer_size_pos)

lemma next_if: "H < n \<Longrightarrow> Suc H mod n = (if Suc H = n then 0 else Suc H)"
  by (auto)

lemma slot_if: "(T::nat) < n \<Longrightarrow> i \<le> n \<Longrightarrow> (T + i) mod n = (if T + i < n then T + i else T + i - n)"
  by (auto simp: mod_if)

lemma ring_dist_less: "H < n \<Longrightarrow> T < n \<Longrightarrow> ring_dist n H T < n"
  by (auto simp: ring_dist_def)

lemma ring_full_iff:
  "H < n \<Longrightarrow> T < n \<Longrightarrow> (Suc H mod n = T) = (ring_dist n H T = n - 1)"
  by (simp add: next_if ring_dist_def) arith

lemma ring_push_dist:
  "H < n \<Longrightarrow> T < n \<Longrightarrow> Suc H mod n \<noteq> T \<Longrightarrow>
   ring_dist n (Suc H mod n) T = Suc (ring_dist n H T)"
  by (simp add: next_if ring_dist_def split: if_splits) arith

lemma ring_push_slot:
  "H < n \<Longrightarrow> T < n \<Longrightarrow> Suc H mod n \<noteq> T \<Longrightarrow> (T + Suc (ring_dist n H T)) mod n = Suc H mod n"
proof -
  assume a: "H < n" "T < n" "Suc H mod n \<noteq> T"
  then have "ring_dist n H T \<noteq> n - 1" by (simp add: ring_full_iff)
  with a have "Suc (ring_dist n H T) \<le> n" using ring_dist_less [of H n T] by simp
  then have "(T + Suc (ring_dist n H T)) mod n =
     (if T + Suc (ring_dist n H T) < n then T + Suc (ring_dist n H T) else T + Suc (ring_dist n H T) - n)"
    using a by (simp only: slot_if)
  with a show ?thesis
   by (simp add: next_if ring_dist_def split: if_splits)
qed

lemma ring_push_other:
  "H < n \<Longrightarrow> T < n \<Longrightarrow> Suc H mod n \<noteq> T \<Longrightarrow> 1 \<le> i \<Longrightarrow> i \<le> ring_dist n H T \<Longrightarrow>
   (T + i) mod n \<noteq> Suc H mod n"
proof -
  assume a: "H < n" "T < n" "Suc H mod n \<noteq> T" "1 \<le> i" "i \<le> ring_dist n H T"
  then have "i \<le> n" using ring_dist_less [of H n T] by simp
  then have "(T + i) mod n = (if T + i < n then T + i else T + i - n)"
    using a by (simp only: slot_if)
  with a show ?thesis
   by (simp add: next_if ring_dist_def split: if_splits)
qed

lemma ring_pop_dist:
  "H < n \<Longrightarrow> T < n \<Longrightarrow> H \<noteq> T \<Longrightarrow>
   Suc (ring_dist n H (Suc T mod n)) = ring_dist n H T"
  by (simp add: next_if ring_dist_def split: if_splits) arith

lemma ring_pop_slot:
  "(Suc T mod n + i) mod n = (T + Suc i) mod (n::nat)"
  by (simp add: mod_add_left_eq mod_Suc_eq)


subsection \<open>One push, one pop\<close>

lemma fifo_contents_length: "length (fifo_contents n buf h t) = fifo_pending n h t"
  by (simp add: fifo_contents_def)

lemma fifo_empty: "fifo_contents n buf t t = []"
  by (simp add: fifo_contents_def fifo_pending_def ring_dist_def)

lemma fifo_pending_less: "unat h < n \<Longrightarrow> unat t < n \<Longrightarrow> fifo_pending n h t < n"
  by (simp add: fifo_pending_def ring_dist_less)

lemma fifo_pending_0_iff:
  "unat h < n \<Longrightarrow> unat t < n \<Longrightarrow> (fifo_pending n h t = 0) = (h = t)"
  by (auto simp: fifo_pending_def ring_dist_def word_unat_eq_iff)

lemma fifo_full_iff:
  assumes "buffer_size_ok n" "unat h < n" "unat t < n"
  shows "((h + 1) AND of_nat (n - 1) = t) = (fifo_pending n h t = n - 1)"
proof -
  have "((h + 1) AND of_nat (n - 1) = t) = (Suc (unat h) mod n = unat t)"
    using assms(1) by (simp only: word_unat_eq_iff unat_next_index)
  then show ?thesis
    using assms(2,3) by (simp only: fifo_pending_def ring_full_iff)
qed

lemma fifo_push:
  assumes n: "buffer_size_ok n" and h: "unat h < n" and t: "unat t < n"
    and len: "length buf = n"
    and tmp: "tmp = (h + 1) AND of_nat (n - 1)" and room: "tmp \<noteq> t"
  shows "fifo_pending n tmp t = Suc (fifo_pending n h t)"
    and "fifo_contents n (buf[unat tmp := d]) tmp t = fifo_contents n buf h t @ [d]"
proof -
  have u: "unat tmp = Suc (unat h) mod n"
    using n tmp by (simp only: unat_next_index)
  have ne: "Suc (unat h) mod n \<noteq> unat t"
    using room u by (simp add: word_unat_eq_iff)
  show p: "fifo_pending n tmp t = Suc (fifo_pending n h t)"
    using h t ne by (simp add: fifo_pending_def u ring_push_dist)
  have lt: "unat tmp < length buf"
    using u len n by (simp add: buffer_size_pos)
  have last: "(unat t + Suc (fifo_pending n h t)) mod n = unat tmp"
    unfolding fifo_pending_def u using h t ne by (rule ring_push_slot)
  have other: "buf[unat tmp := d] ! ((unat t + i) mod n) = buf ! ((unat t + i) mod n)"
    if "i \<in> set [1 ..< Suc (fifo_pending n h t)]" for i
  proof -
    from that have "1 \<le> i" "i \<le> ring_dist n (unat h) (unat t)"
      by (simp_all add: fifo_pending_def del: upt_Suc)
    then have "(unat t + i) mod n \<noteq> unat tmp"
      using h t ne by (simp only: u) (rule ring_push_other)
    then show ?thesis by simp
  qed
  have "fifo_contents n (buf[unat tmp := d]) tmp t =
        map (\<lambda>i. buf[unat tmp := d] ! ((unat t + i) mod n)) [1 ..< Suc (fifo_pending n h t)]
        @ [buf[unat tmp := d] ! ((unat t + Suc (fifo_pending n h t)) mod n)]"
    by (simp add: fifo_contents_def p upt_Suc_append del: upt_Suc)
  also have "map (\<lambda>i. buf[unat tmp := d] ! ((unat t + i) mod n)) [1 ..< Suc (fifo_pending n h t)]
        = fifo_contents n buf h t"
    unfolding fifo_contents_def by (rule map_cong [OF refl]) (rule other)
  also have "buf[unat tmp := d] ! ((unat t + Suc (fifo_pending n h t)) mod n) = d"
    using lt by (simp only: last nth_list_update_eq)
  finally show "fifo_contents n (buf[unat tmp := d]) tmp t = fifo_contents n buf h t @ [d]" .
qed

lemma fifo_pop:
  assumes n: "buffer_size_ok n" and h: "unat h < n" and t: "unat t < n"
    and t': "t' = (t + 1) AND of_nat (n - 1)" and data: "h \<noteq> t"
  shows "Suc (fifo_pending n h t') = fifo_pending n h t"
    and "fifo_contents n buf h t = buf ! unat t' # fifo_contents n buf h t'"
proof -
  have u: "unat t' = Suc (unat t) mod n"
    using n t' by (simp only: unat_next_index)
  have ne: "unat h \<noteq> unat t"
    using data by (simp add: word_unat_eq_iff)
  show p: "Suc (fifo_pending n h t') = fifo_pending n h t"
    using h t ne by (simp add: fifo_pending_def u ring_pop_dist)
  have "fifo_contents n buf h t =
        map (\<lambda>i. buf ! ((unat t + i) mod n)) [1 ..< Suc (Suc (fifo_pending n h t'))]"
    by (simp only: fifo_contents_def p)
  also have "\<dots> = buf ! ((unat t + 1) mod n) #
        map (\<lambda>i. buf ! ((unat t + Suc i) mod n)) [1 ..< Suc (fifo_pending n h t')]"
    by (simp add: upt_conv_Cons map_Suc_upt [symmetric] del: upt_Suc)
  also have "\<dots> = buf ! unat t' # fifo_contents n buf h t'"
    by (simp add: fifo_contents_def u ring_pop_slot)
  finally show "fifo_contents n buf h t = buf ! unat t' # fifo_contents n buf h t'" .
qed



subsection \<open>The functions on well-formed states\<close>

lemma twiStuffRxBuf_full:
  assumes "header_ok h" "idx_ok h s" "rx_pending h s = TWI_RX_BUFFER_SIZE h - 1"
  shows "twiStuffRxBuf h d s = Some ((), s)"
proof -
  have "(rxHead s + 1) AND of_nat (TWI_RX_BUFFER_SIZE h - 1) = rxTail s"
    using assms fifo_full_iff [of "TWI_RX_BUFFER_SIZE h" "rxHead s" "rxTail s"]
    by (simp add: header_ok_def idx_ok_def rx_pending_def)
  then show ?thesis
    unfolding twiStuffRxBuf_def TWI_RX_BUFFER_MASK_def Let_def by simp
qed

lemma twiTransmitByte_full:
  assumes "header_ok h" "idx_ok h s" "tx_pending h s = TWI_TX_BUFFER_SIZE h - 1"
  shows "twiTransmitByte h d s = Some ((), s)"
proof -
  have "(txHead s + 1) AND of_nat (TWI_TX_BUFFER_SIZE h - 1) = txTail s"
    using assms fifo_full_iff [of "TWI_TX_BUFFER_SIZE h" "txHead s" "txTail s"]
    by (simp add: header_ok_def idx_ok_def tx_pending_def)
  then show ?thesis
    unfolding twiTransmitByte_def TWI_TX_BUFFER_MASK_def Let_def by simp
qed

lemma twiStuffRxBuf_room:
  assumes h: "header_ok h" and b: "bufs_ok h s" and i: "idx_ok h s"
    and room: "rx_pending h s \<noteq> TWI_RX_BUFFER_SIZE h - 1"
  shows "\<exists>s'. twiStuffRxBuf h d s = Some ((), s')
           \<and> rx_contents h s' = rx_contents h s @ [d]
           \<and> rx_pending h s' = Suc (rx_pending h s)
           \<and> tx_contents h s' = tx_contents h s
           \<and> bufs_ok h s' \<and> idx_ok h s'"
proof -
  let ?n = "TWI_RX_BUFFER_SIZE h"
  define tmp where "tmp = (rxHead s + 1) AND (of_nat (?n - 1) :: u8)"
  define s' where "s' = s\<lparr>rxBuf := (rxBuf s)[unat tmp := d], rxHead := tmp\<rparr>"
  have n: "buffer_size_ok ?n" using h by (simp add: header_ok_def)
  have hd: "unat (rxHead s) < ?n" and tl: "unat (rxTail s) < ?n"
    using i by (simp_all add: idx_ok_def)
  have len: "length (rxBuf s) = ?n" using b by (simp add: bufs_ok_def)
  have ne: "tmp \<noteq> rxTail s"
    unfolding tmp_def using room fifo_full_iff [OF n hd tl] by (simp add: rx_pending_def)
  have lt: "unat tmp < ?n"
    unfolding tmp_def using n by (rule next_index_less)
  have run: "twiStuffRxBuf h d s = Some ((), s')"
    unfolding twiStuffRxBuf_def TWI_RX_BUFFER_MASK_def Let_def tmp_def [symmetric]
    using ne lt len by (simp add: array_write_def s'_def)
  note p = fifo_push [OF n hd tl len tmp_def ne]
  have c: "rx_contents h s' = rx_contents h s @ [d]"
    using p(2) [of d] by (simp add: rx_contents_def s'_def)
  have q: "rx_pending h s' = Suc (rx_pending h s)"
    using p(1) by (simp add: rx_pending_def s'_def)
  have t: "tx_contents h s' = tx_contents h s"
    by (simp add: tx_contents_def s'_def)
  have w: "bufs_ok h s'" "idx_ok h s'"
    using b i lt by (simp_all add: bufs_ok_def idx_ok_def s'_def)
  from run c q t w show ?thesis by blast
qed

lemma twiTransmitByte_room:
  assumes h: "header_ok h" and b: "bufs_ok h s" and i: "idx_ok h s"
    and room: "tx_pending h s \<noteq> TWI_TX_BUFFER_SIZE h - 1"
  shows "\<exists>s'. twiTransmitByte h d s = Some ((), s')
           \<and> tx_contents h s' = tx_contents h s @ [d]
           \<and> tx_pending h s' = Suc (tx_pending h s)
           \<and> rx_contents h s' = rx_contents h s
           \<and> bufs_ok h s' \<and> idx_ok h s'"
proof -
  let ?n = "TWI_TX_BUFFER_SIZE h"
  define tmp where "tmp = (txHead s + 1) AND (of_nat (?n - 1) :: u8)"
  define s' where "s' = s\<lparr>txBuf := (txBuf s)[unat tmp := d], txHead := tmp\<rparr>"
  have n: "buffer_size_ok ?n" using h by (simp add: header_ok_def)
  have hd: "unat (txHead s) < ?n" and tl: "unat (txTail s) < ?n"
    using i by (simp_all add: idx_ok_def)
  have len: "length (txBuf s) = ?n" using b by (simp add: bufs_ok_def)
  have ne: "tmp \<noteq> txTail s"
    unfolding tmp_def using room fifo_full_iff [OF n hd tl] by (simp add: tx_pending_def)
  have lt: "unat tmp < ?n"
    unfolding tmp_def using n by (rule next_index_less)
  have run: "twiTransmitByte h d s = Some ((), s')"
    unfolding twiTransmitByte_def TWI_TX_BUFFER_MASK_def Let_def tmp_def [symmetric]
    using ne lt len by (simp add: array_write_def s'_def)
  note p = fifo_push [OF n hd tl len tmp_def ne]
  have c: "tx_contents h s' = tx_contents h s @ [d]"
    using p(2) [of d] by (simp add: tx_contents_def s'_def)
  have q: "tx_pending h s' = Suc (tx_pending h s)"
    using p(1) by (simp add: tx_pending_def s'_def)
  have t: "rx_contents h s' = rx_contents h s"
    by (simp add: rx_contents_def s'_def)
  have w: "bufs_ok h s'" "idx_ok h s'"
    using b i lt by (simp_all add: bufs_ok_def idx_ok_def s'_def)
  from run c q t w show ?thesis by blast
qed

lemma twiReceiveByte_data:
  assumes h: "header_ok h" and b: "bufs_ok h s" and i: "idx_ok h s"
    and data: "rxHead s \<noteq> rxTail s"
  shows "\<exists>v s'. twiReceiveByte h s = Some (v, s')
           \<and> rx_contents h s = v # rx_contents h s'
           \<and> Suc (rx_pending h s') = rx_pending h s
           \<and> tx_contents h s' = tx_contents h s
           \<and> bufs_ok h s' \<and> idx_ok h s'"
proof -
  let ?n = "TWI_RX_BUFFER_SIZE h"
  define t where "t = (rxTail s + 1) AND (of_nat (?n - 1) :: u8)"
  define s' where "s' = s\<lparr>rxTail := t\<rparr>"
  have n: "buffer_size_ok ?n" using h by (simp add: header_ok_def)
  have hd: "unat (rxHead s) < ?n" and tl: "unat (rxTail s) < ?n"
    using i by (simp_all add: idx_ok_def)
  have len: "length (rxBuf s) = ?n" using b by (simp add: bufs_ok_def)
  have lt: "unat t < ?n"
    unfolding t_def using n by (rule next_index_less)
  have run: "twiReceiveByte h s = Some (rxBuf s ! unat t, s')"
    unfolding twiReceiveByte_def TWI_RX_BUFFER_MASK_def Let_def t_def [symmetric]
    using data lt len by (simp add: array_read_def s'_def)
  note p = fifo_pop [OF n hd tl t_def data]
  have c: "rx_contents h s = rxBuf s ! unat t # rx_contents h s'"
    using p(2) [of "rxBuf s"] by (simp add: rx_contents_def s'_def)
  have q: "Suc (rx_pending h s') = rx_pending h s"
    using p(1) by (simp add: rx_pending_def s'_def)
  have x: "tx_contents h s' = tx_contents h s"
    by (simp add: tx_contents_def s'_def)
  have w: "bufs_ok h s'" "idx_ok h s'"
    using b i lt by (simp_all add: bufs_ok_def idx_ok_def s'_def)
  from run c q x w show ?thesis by blast
qed

subsection \<open>First in, first out\<close>

lemma received_Cons:
  "received ((True, v) # outs) = v # received outs"
  "received ((False, v) # outs) = received outs"
  by (simp_all add: received_def)

lemma rx_run_fifo:
  assumes "header_ok h"
  shows "bufs_ok h s \<Longrightarrow> idx_ok h s \<Longrightarrow> rx_never_full h ops s \<Longrightarrow>
         \<exists>outs s'. rx_run h ops s = Some (outs, s')
           \<and> rx_contents h s @ stuffed ops = received outs @ rx_contents h s'
           \<and> bufs_ok h s' \<and> idx_ok h s'"
proof (induction ops arbitrary: s)
  case Nil
  then show ?case by (simp add: received_def)
next
  case (Cons op ops)
  show ?case
  proof (cases op)
    case (Stuff d)
    from Cons.prems(3) Stuff have room: "rx_pending h s \<noteq> TWI_RX_BUFFER_SIZE h - 1"
      by simp
    from twiStuffRxBuf_room [OF assms Cons.prems(1,2) room, of d] obtain s1 where
      s1: "twiStuffRxBuf h d s = Some ((), s1)" "rx_contents h s1 = rx_contents h s @ [d]"
        "bufs_ok h s1" "idx_ok h s1"
      by blast
    from Cons.prems(3) Stuff s1(1) have "rx_never_full h ops s1" by simp
    from Cons.IH [OF s1(3,4) this] obtain outs s' where
      r: "rx_run h ops s1 = Some (outs, s')"
        "rx_contents h s1 @ stuffed ops = received outs @ rx_contents h s'"
        "bufs_ok h s'" "idx_ok h s'"
      by blast
    have "rx_run h (op # ops) s = Some (outs, s')"
      using Stuff s1(1) r(1) by simp
    moreover have "rx_contents h s @ stuffed (op # ops) = received outs @ rx_contents h s'"
      using Stuff s1(2) r(2) by simp
    ultimately show ?thesis using r(3,4) by blast
  next
    case Receive
    show ?thesis
    proof (cases "rxHead s = rxTail s")
      case True
      then have e: "twiReceiveByte h s = Some (0x88, s)"
        by (simp add: twiReceiveByte_def)
      with Cons.prems(3) Receive have "rx_never_full h ops s" by simp
      from Cons.IH [OF Cons.prems(1,2) this] obtain outs s' where
        r: "rx_run h ops s = Some (outs, s')"
          "rx_contents h s @ stuffed ops = received outs @ rx_contents h s'"
          "bufs_ok h s'" "idx_ok h s'"
        by blast
      have "rx_run h (op # ops) s = Some ((False, 0x88) # outs, s')"
        using Receive e r(1) True by (simp add: twiDataInReceiveBuffer_def)
      moreover have "rx_contents h s @ stuffed (op # ops)
                       = received ((False, 0x88) # outs) @ rx_contents h s'"
        using Receive r(2) by (simp add: received_Cons)
      ultimately show ?thesis using r(3,4) by blast
    next
      case False
      from twiReceiveByte_data [OF assms Cons.prems(1,2) False] obtain v s1 where
        s1: "twiReceiveByte h s = Some (v, s1)" "rx_contents h s = v # rx_contents h s1"
          "bufs_ok h s1" "idx_ok h s1"
        by blast
      from Cons.prems(3) Receive s1(1) have "rx_never_full h ops s1" by simp
      from Cons.IH [OF s1(3,4) this] obtain outs s' where
        r: "rx_run h ops s1 = Some (outs, s')"
          "rx_contents h s1 @ stuffed ops = received outs @ rx_contents h s'"
          "bufs_ok h s'" "idx_ok h s'"
        by blast
      have "rx_run h (op # ops) s = Some ((True, v) # outs, s')"
        using Receive s1(1) r(1) False by (simp add: twiDataInReceiveBuffer_def)
      moreover have "rx_contents h s @ stuffed (op # ops)
                       = received ((True, v) # outs) @ rx_contents h s'"
        using Receive s1(2) r(2) by (simp add: received_Cons)
      ultimately show ?thesis using r(3,4) by blast
    qed
  qed
qed

lemma rx_run_drain:
  assumes "header_ok h"
  shows "bufs_ok h s \<Longrightarrow> idx_ok h s \<Longrightarrow> rx_pending h s = k \<Longrightarrow>
         \<exists>s'. rx_run h (replicate k Receive) s = Some (map (Pair True) (rx_contents h s), s')
           \<and> \<not> twiDataInReceiveBuffer s'"
proof (induction k arbitrary: s)
  case 0
  then have "rxHead s = rxTail s"
    using fifo_pending_0_iff [of "rxHead s" "TWI_RX_BUFFER_SIZE h" "rxTail s"]
    by (simp add: rx_pending_def idx_ok_def)
  then show ?case
    by (simp add: rx_contents_def fifo_empty twiDataInReceiveBuffer_def)
next
  case (Suc k)
  then have data: "rxHead s \<noteq> rxTail s"
    using fifo_pending_0_iff [of "rxHead s" "TWI_RX_BUFFER_SIZE h" "rxTail s"]
    by (simp add: rx_pending_def idx_ok_def)
  from twiReceiveByte_data [OF assms Suc.prems(1,2) data] obtain v s1 where
    s1: "twiReceiveByte h s = Some (v, s1)" "rx_contents h s = v # rx_contents h s1"
      "Suc (rx_pending h s1) = rx_pending h s" "bufs_ok h s1" "idx_ok h s1"
    by blast
  from s1(3) Suc.prems(3) have "rx_pending h s1 = k" by simp
  from Suc.IH [OF s1(4,5) this] obtain s' where
    r: "rx_run h (replicate k Receive) s1 = Some (map (Pair True) (rx_contents h s1), s')"
      "\<not> twiDataInReceiveBuffer s'"
    by blast
  have "rx_run h (replicate (Suc k) Receive) s
          = Some (map (Pair True) (rx_contents h s), s')"
    using s1(1,2) r(1) data by (simp add: twiDataInReceiveBuffer_def)
  with r(2) show ?case by blast
qed

text \<open>
  C1. Take any run of pushes (twiStuffRxBuf) and pops (twiReceiveByte) on the receive
  buffer in which no push finds capacity - 1 bytes pending. The run completes, and the
  bytes held at the start followed by the bytes pushed are exactly the bytes popped
  followed by the bytes still held at the end: nothing is lost, repeated or reordered.
  Popping then as many times as bytes are held returns exactly those bytes, in order,
  and leaves the buffer empty.
\<close>

theorem rx_fifo_order:
  assumes "header_ok h" "bufs_ok h s" "idx_ok h s" "rx_never_full h ops s"
  shows "\<exists>outs s' s''. rx_run h ops s = Some (outs, s')
           \<and> rx_contents h s @ stuffed ops = received outs @ rx_contents h s'
           \<and> rx_run h (replicate (rx_pending h s') Receive) s'
               = Some (map (Pair True) (rx_contents h s'), s'')
           \<and> \<not> twiDataInReceiveBuffer s''"
proof -
  from rx_run_fifo [OF assms] obtain outs s' where
    r: "rx_run h ops s = Some (outs, s')"
      "rx_contents h s @ stuffed ops = received outs @ rx_contents h s'"
      "bufs_ok h s'" "idx_ok h s'"
    by blast
  from rx_run_drain [OF assms(1) r(3,4) refl] obtain s'' where
    "rx_run h (replicate (rx_pending h s') Receive) s'
       = Some (map (Pair True) (rx_contents h s'), s'')"
    "\<not> twiDataInReceiveBuffer s''"
    by blast
  with r(1,2) show ?thesis by blast
qed

lemma hdr8_ok: "header_ok hdr8"
  by (simp add: header_ok_def hdr8_def buffer_size_ok_def)

lemma st0_ok: "bufs_ok hdr8 st0" "idx_ok hdr8 st0"
  by (simp_all add: bufs_ok_def idx_ok_def hdr8_def st0_def)

theorem rx_fifo_order_witness:
  "header_ok hdr8 \<and> bufs_ok hdr8 st0 \<and> idx_ok hdr8 st0
   \<and> rx_never_full hdr8 [Stuff 0x11, Stuff 0x22, Receive, Stuff 0x33] st0
   \<and> (\<exists>outs s' s''. rx_run hdr8 [Stuff 0x11, Stuff 0x22, Receive, Stuff 0x33] st0 = Some (outs, s')
         \<and> rx_contents hdr8 st0 @ stuffed [Stuff 0x11, Stuff 0x22, Receive, Stuff 0x33]
             = received outs @ rx_contents hdr8 s'
         \<and> rx_run hdr8 (replicate (rx_pending hdr8 s') Receive) s'
             = Some (map (Pair True) (rx_contents hdr8 s'), s'')
         \<and> \<not> twiDataInReceiveBuffer s'')
   \<and> map_option fst (rx_run hdr8 [Stuff 0x11, Stuff 0x22, Receive, Stuff 0x33] st0)
       = Some [(True, 0x11)]
   \<and> map_option (rx_contents hdr8 \<circ> snd) (rx_run hdr8 [Stuff 0x11, Stuff 0x22, Receive, Stuff 0x33] st0)
       = Some [0x22, 0x33]"
proof -
  have n: "rx_never_full hdr8 [Stuff 0x11, Stuff 0x22, Receive, Stuff 0x33] st0"
    by (simp add: twiStuffRxBuf_def twiReceiveByte_def TWI_RX_BUFFER_MASK_def array_write_def
        array_read_def rx_pending_def fifo_pending_def ring_dist_def hdr8_def st0_def)
  have r: "rx_run hdr8 [Stuff 0x11, Stuff 0x22, Receive, Stuff 0x33] st0
      = Some ([(True, 0x11)], st0\<lparr>rxBuf := [0, 0x11, 0x22, 0x33, 0, 0, 0, 0], rxHead := 3, rxTail := 1\<rparr>)"
    by (simp add: twiStuffRxBuf_def twiReceiveByte_def twiDataInReceiveBuffer_def
        TWI_RX_BUFFER_MASK_def array_write_def array_read_def hdr8_def st0_def)
  have c: "rx_contents hdr8 (st0\<lparr>rxBuf := [0, 0x11, 0x22, 0x33, 0, 0, 0, 0], rxHead := 3, rxTail := 1\<rparr>)
      = [0x22, 0x33]"
    by (simp add: rx_contents_def fifo_contents_def fifo_pending_def ring_dist_def hdr8_def
        st0_def upt_conv_Cons)
  have e: "map_option fst (rx_run hdr8 [Stuff 0x11, Stuff 0x22, Receive, Stuff 0x33] st0)
       = Some [(True, 0x11)]"
    "map_option (rx_contents hdr8 \<circ> snd) (rx_run hdr8 [Stuff 0x11, Stuff 0x22, Receive, Stuff 0x33] st0)
       = Some [0x22, 0x33]"
    by (simp_all only: r c option.map_sel option.simps fst_conv snd_conv comp_apply)
  from rx_fifo_order [OF hdr8_ok st0_ok n] hdr8_ok st0_ok n e show ?thesis by blast
qed

subsection \<open>A push on a full buffer\<close>

text \<open>
  C2, as the code has it. In every state whose transmit buffer holds capacity - 1
  bytes, twiTransmitByte leaves the whole state as it was, and so does twiStuffRxBuf when
  the receive buffer holds capacity - 1 bytes: contents, head and tail are unchanged and
  the oldest byte stays. The new byte is dropped silently: both functions return
  \<open>void\<close>, the same as for a byte they accept.
\<close>

theorem push_full_unchanged:
  assumes "header_ok h" "idx_ok h s"
  shows "(tx_pending h s = TWI_TX_BUFFER_SIZE h - 1 \<longrightarrow> twiTransmitByte h d s = Some ((), s))
       \<and> (rx_pending h s = TWI_RX_BUFFER_SIZE h - 1 \<longrightarrow> twiStuffRxBuf h d s = Some ((), s))"
  using assms by (simp add: twiTransmitByte_full twiStuffRxBuf_full)

lemma st_full_ok: "bufs_ok hdr8 st_full" "idx_ok hdr8 st_full"
  by (simp_all add: bufs_ok_def idx_ok_def hdr8_def st_full_def st0_def)

lemma st_full_pending:
  "tx_pending hdr8 st_full = TWI_TX_BUFFER_SIZE hdr8 - 1"
  "rx_pending hdr8 st_full = TWI_RX_BUFFER_SIZE hdr8 - 1"
  by (simp_all add: tx_pending_def rx_pending_def fifo_pending_def ring_dist_def hdr8_def
      st_full_def st0_def)

theorem push_full_unchanged_witness:
  "header_ok hdr8 \<and> idx_ok hdr8 st_full
   \<and> tx_pending hdr8 st_full = TWI_TX_BUFFER_SIZE hdr8 - 1
   \<and> rx_pending hdr8 st_full = TWI_RX_BUFFER_SIZE hdr8 - 1
   \<and> twiTransmitByte hdr8 0x42 st_full = Some ((), st_full)
   \<and> twiStuffRxBuf hdr8 0x42 st_full = Some ((), st_full)"
  using push_full_unchanged [OF hdr8_ok st_full_ok(2), of "0x42"] hdr8_ok st_full_ok(2)
    st_full_pending
  by simp

text \<open>
  The claim as it is written also has the push report its failure. With eight-byte
  buffers, the transmit buffer of \<open>st_full\<close> holds seven bytes and that of \<open>st0\<close> none;
  twiTransmitByte rejects 0x42 in the first and accepts it in the second, and what it
  returns to its caller is the same in both.
\<close>

theorem push_full_reports_nothing:
  "tx_pending hdr8 st_full = TWI_TX_BUFFER_SIZE hdr8 - 1
   \<and> tx_contents hdr8 st_full = [1, 2, 3, 4, 5, 6, 7]
   \<and> twiTransmitByte hdr8 0x42 st_full = Some ((), st_full)
   \<and> twiTransmitByte hdr8 0x42 st0 = Some ((), st0\<lparr>txBuf := [0, 0x42, 0, 0, 0, 0, 0, 0], txHead := 1\<rparr>)
   \<and> \<not> (map_option fst (twiTransmitByte hdr8 0x42 st_full)
           \<noteq> map_option fst (twiTransmitByte hdr8 0x42 st0))"
  by (simp add: tx_pending_def tx_contents_def fifo_contents_def fifo_pending_def ring_dist_def
      twiTransmitByte_def TWI_TX_BUFFER_MASK_def array_write_def hdr8_def st_full_def st0_def
      upt_conv_Cons)

subsection \<open>The transmit events of the handler\<close>

lemma ISR_tx_data:
  assumes h: "header_ok h" and b: "bufs_ok h s" and i: "idx_ok h s"
    and st: "TWSR s = TWI_STX_ADR_ACK \<or> TWSR s = TWI_STX_DATA_ACK"
    and data: "txHead s \<noteq> txTail s"
  shows "\<exists>s'. ISR h s = Some s'
           \<and> tx_contents h s = TWDR s' # tx_contents h s'
           \<and> Suc (tx_pending h s') = tx_pending h s
           \<and> txBuf s' = txBuf s \<and> txHead s' = txHead s
           \<and> rx_contents h s' = rx_contents h s
           \<and> TWCR s' = TWCR_next_event
           \<and> bufs_ok h s' \<and> idx_ok h s'"
proof -
  let ?n = "TWI_TX_BUFFER_SIZE h"
  define t where "t = (txTail s + 1) AND (of_nat (?n - 1) :: u8)"
  define s' where "s' = s\<lparr>txTail := t, TWDR := txBuf s ! unat t, TWCR := TWCR_next_event\<rparr>"
  have n: "buffer_size_ok ?n" using h by (simp add: header_ok_def)
  have hd: "unat (txHead s) < ?n" and tl: "unat (txTail s) < ?n"
    using i by (simp_all add: idx_ok_def)
  have len: "length (txBuf s) = ?n" using b by (simp add: bufs_ok_def)
  have lt: "unat t < ?n"
    unfolding t_def using n by (rule next_index_less)
  have run: "ISR h s = Some s'"
    unfolding ISR_def TWI_TX_BUFFER_MASK_def Let_def t_def [symmetric]
    using st data lt len by (auto simp: array_read_def s'_def status_defs)
  note p = fifo_pop [OF n hd tl t_def data]
  have c: "tx_contents h s = TWDR s' # tx_contents h s'"
    using p(2) [of "txBuf s"] by (simp add: tx_contents_def s'_def)
  have q: "Suc (tx_pending h s') = tx_pending h s"
    using p(1) by (simp add: tx_pending_def s'_def)
  have x: "txBuf s' = txBuf s" "txHead s' = txHead s" "rx_contents h s' = rx_contents h s"
    "TWCR s' = TWCR_next_event"
    by (simp_all add: rx_contents_def s'_def)
  have w: "bufs_ok h s'" "idx_ok h s'"
    using b i lt by (simp_all add: bufs_ok_def idx_ok_def s'_def)
  from run c q x w show ?thesis by blast
qed

text \<open>
  C4. For a bus event with status 0xA8 (own SLA+R received, ACK returned) or 0xB8 (data
  byte transmitted, ACK received): when the transmit buffer has data, the handler takes
  exactly its oldest byte out, the rest staying in order, and loads that byte into the
  data register TWDR; when the transmit buffer is empty, it loads 0x88 into TWDR and
  leaves both buffers alone.
\<close>

theorem ISR_transmit_event:
  assumes "header_ok h" "bufs_ok h s" "idx_ok h s"
    and "TWSR s = TWI_STX_ADR_ACK \<or> TWSR s = TWI_STX_DATA_ACK"
  shows "(twiDataInTransmitBuffer s \<longrightarrow>
            (\<exists>s'. ISR h s = Some s' \<and> tx_contents h s = TWDR s' # tx_contents h s'
                \<and> rx_contents h s' = rx_contents h s))
       \<and> (\<not> twiDataInTransmitBuffer s \<longrightarrow>
            ISR h s = Some (s\<lparr>TWDR := 0x88, TWCR := TWCR_next_event\<rparr>))"
proof (cases "txHead s = txTail s")
  case True
  with assms(4) have "ISR h s = Some (s\<lparr>TWDR := 0x88, TWCR := TWCR_next_event\<rparr>)"
    by (auto simp: ISR_def status_defs)
  with True show ?thesis by (simp add: twiDataInTransmitBuffer_def)
next
  case False
  from ISR_tx_data [OF assms False] have
    "\<exists>s'. ISR h s = Some s' \<and> tx_contents h s = TWDR s' # tx_contents h s'
        \<and> rx_contents h s' = rx_contents h s"
    by blast
  with False show ?thesis by (simp add: twiDataInTransmitBuffer_def)
qed

theorem ISR_transmit_event_witness:
  "header_ok hdr8 \<and> bufs_ok hdr8 (st_full\<lparr>TWSR := TWI_STX_ADR_ACK\<rparr>)
   \<and> idx_ok hdr8 (st_full\<lparr>TWSR := TWI_STX_ADR_ACK\<rparr>)
   \<and> twiDataInTransmitBuffer (st_full\<lparr>TWSR := TWI_STX_ADR_ACK\<rparr>)
   \<and> (\<exists>s'. ISR hdr8 (st_full\<lparr>TWSR := TWI_STX_ADR_ACK\<rparr>) = Some s'
         \<and> TWDR s' = 1 \<and> tx_contents hdr8 s' = [2, 3, 4, 5, 6, 7])
   \<and> bufs_ok hdr8 (st0\<lparr>TWSR := TWI_STX_DATA_ACK\<rparr>)
   \<and> idx_ok hdr8 (st0\<lparr>TWSR := TWI_STX_DATA_ACK\<rparr>)
   \<and> \<not> twiDataInTransmitBuffer (st0\<lparr>TWSR := TWI_STX_DATA_ACK\<rparr>)
   \<and> ISR hdr8 (st0\<lparr>TWSR := TWI_STX_DATA_ACK\<rparr>)
       = Some (st0\<lparr>TWSR := TWI_STX_DATA_ACK, TWDR := 0x88, TWCR := TWCR_next_event\<rparr>)"
proof -
  let ?f = "st_full\<lparr>TWSR := TWI_STX_ADR_ACK\<rparr>"
  let ?e = "st0\<lparr>TWSR := TWI_STX_DATA_ACK\<rparr>"
  have f: "bufs_ok hdr8 ?f" "idx_ok hdr8 ?f" "TWSR ?f = TWI_STX_ADR_ACK \<or> TWSR ?f = TWI_STX_DATA_ACK"
    "twiDataInTransmitBuffer ?f"
    using st_full_ok
    by (simp_all add: bufs_ok_def idx_ok_def twiDataInTransmitBuffer_def st_full_def st0_def)
  have e: "bufs_ok hdr8 ?e" "idx_ok hdr8 ?e" "TWSR ?e = TWI_STX_ADR_ACK \<or> TWSR ?e = TWI_STX_DATA_ACK"
    "\<not> twiDataInTransmitBuffer ?e"
    using st0_ok
    by (simp_all add: bufs_ok_def idx_ok_def twiDataInTransmitBuffer_def st0_def)
  have c: "tx_contents hdr8 ?f = [1, 2, 3, 4, 5, 6, 7]"
    by (simp add: tx_contents_def fifo_contents_def fifo_pending_def ring_dist_def hdr8_def
        st_full_def st0_def upt_conv_Cons)
  from ISR_transmit_event [OF hdr8_ok f(1,2,3)] f(4) c obtain s' where
    "ISR hdr8 ?f = Some s'" "[1, 2, 3, 4, 5, 6, 7] = TWDR s' # tx_contents hdr8 s'"
    by auto
  then have "\<exists>s'. ISR hdr8 ?f = Some s' \<and> TWDR s' = 1 \<and> tx_contents hdr8 s' = [2, 3, 4, 5, 6, 7]"
    by auto
  moreover from ISR_transmit_event [OF hdr8_ok e(1,2,3)] e(4)
  have "ISR hdr8 ?e = Some (?e\<lparr>TWDR := 0x88, TWCR := TWCR_next_event\<rparr>)"
    by blast
  ultimately show ?thesis using hdr8_ok f e by simp
qed

subsection \<open>A push into an empty buffer, then a pop\<close>

lemma next_index_neq:
  assumes "buffer_size_ok n" "2 \<le> n"
  shows "(t + 1) AND (of_nat (n - 1) :: u8) \<noteq> t"
proof
  assume eq: "(t + 1) AND (of_nat (n - 1) :: u8) = t"
  have u: "unat ((t + 1) AND (of_nat (n - 1) :: u8)) = Suc (unat t) mod n"
    using assms(1) by (rule unat_next_index)
  with eq have m: "Suc (unat t) mod n = unat t" by simp
  then have "unat t < n"
    using assms(2) mod_less_divisor [of n "Suc (unat t)"] by simp
  with m assms(2) show False
    by (simp add: next_if split: if_splits)
qed

lemma twiReceiveByte_TWCR:
  "twiReceiveByte h (s\<lparr>TWCR := c\<rparr>)
     = map_option (\<lambda>(v, s'). (v, s'\<lparr>TWCR := c\<rparr>)) (twiReceiveByte h s)"
  by (simp add: twiReceiveByte_def Let_def split: option.split)

lemma rx_stuff_then_receive:
  assumes h: "header_ok h" and two: "2 \<le> TWI_RX_BUFFER_SIZE h" and b: "bufs_ok h s"
    and e: "rxHead s = rxTail s"
  shows "\<exists>s1. twiStuffRxBuf h d s = Some ((), s1) \<and> twiDataInReceiveBuffer s1
           \<and> (\<forall>c. \<exists>s2. twiReceiveByte h (s1\<lparr>TWCR := c\<rparr>) = Some (d, s2))
           \<and> (\<exists>s2. twiReceiveByte h s1 = Some (d, s2))"
proof -
  let ?n = "TWI_RX_BUFFER_SIZE h"
  define tmp where "tmp = (rxTail s + 1) AND (of_nat (?n - 1) :: u8)"
  define s1 where "s1 = s\<lparr>rxBuf := (rxBuf s)[unat tmp := d], rxHead := tmp\<rparr>"
  have n: "buffer_size_ok ?n" using h by (simp add: header_ok_def)
  have len: "length (rxBuf s) = ?n" using b by (simp add: bufs_ok_def)
  have ne: "tmp \<noteq> rxTail s"
    unfolding tmp_def using n two by (rule next_index_neq)
  have lt: "unat tmp < ?n"
    unfolding tmp_def using n by (rule next_index_less)
  have push: "twiStuffRxBuf h d s = Some ((), s1)"
    unfolding twiStuffRxBuf_def TWI_RX_BUFFER_MASK_def Let_def e tmp_def [symmetric]
    using ne lt len by (simp add: array_write_def s1_def e)
  have has: "twiDataInReceiveBuffer s1"
    using ne by (simp add: twiDataInReceiveBuffer_def s1_def)
  have sel: "rxTail s1 = rxTail s" "rxHead s1 = tmp" "rxBuf s1 = (rxBuf s)[unat tmp := d]"
    by (simp_all add: s1_def)
  have pop': "twiReceiveByte h s1 = Some (d, s1\<lparr>rxTail := tmp\<rparr>)"
    unfolding twiReceiveByte_def TWI_RX_BUFFER_MASK_def Let_def sel tmp_def [symmetric]
    using ne lt len by (simp add: array_read_def)
  have pop: "\<exists>s2. twiReceiveByte h (s1\<lparr>TWCR := c\<rparr>) = Some (d, s2)" for c
    using pop' by (simp add: twiReceiveByte_TWCR)
  from push has pop pop' show ?thesis by blast
qed

lemma tx_transmit_then_event:
  assumes h: "header_ok h" and two: "2 \<le> TWI_TX_BUFFER_SIZE h" and b: "bufs_ok h s"
    and e: "txHead s = txTail s"
    and st: "st = TWI_STX_ADR_ACK \<or> st = TWI_STX_DATA_ACK"
  shows "\<exists>s1 s2. twiTransmitByte h d s = Some ((), s1) \<and> twiDataInTransmitBuffer s1
           \<and> ISR h (s1\<lparr>TWSR := st\<rparr>) = Some s2 \<and> TWDR s2 = d"
proof -
  let ?n = "TWI_TX_BUFFER_SIZE h"
  define tmp where "tmp = (txTail s + 1) AND (of_nat (?n - 1) :: u8)"
  define s1 where "s1 = s\<lparr>txBuf := (txBuf s)[unat tmp := d], txHead := tmp\<rparr>"
  have n: "buffer_size_ok ?n" using h by (simp add: header_ok_def)
  have len: "length (txBuf s) = ?n" using b by (simp add: bufs_ok_def)
  have ne: "tmp \<noteq> txTail s"
    unfolding tmp_def using n two by (rule next_index_neq)
  have lt: "unat tmp < ?n"
    unfolding tmp_def using n by (rule next_index_less)
  have push: "twiTransmitByte h d s = Some ((), s1)"
    unfolding twiTransmitByte_def TWI_TX_BUFFER_MASK_def Let_def e tmp_def [symmetric]
    using ne lt len by (simp add: array_write_def s1_def e)
  have has: "twiDataInTransmitBuffer s1"
    using ne by (simp add: twiDataInTransmitBuffer_def s1_def)
  define s1' where "s1' = s1\<lparr>TWSR := st\<rparr>"
  have sel: "txTail s1' = txTail s" "txHead s1' = tmp" "txBuf s1' = (txBuf s)[unat tmp := d]"
    "TWSR s1' = st"
    by (simp_all add: s1_def s1'_def)
  have "ISR h s1' = Some (s1'\<lparr>txTail := tmp, TWDR := d, TWCR := TWCR_next_event\<rparr>)"
    unfolding ISR_def TWI_TX_BUFFER_MASK_def Let_def sel tmp_def [symmetric]
    using st ne lt len by (auto simp: array_read_def status_defs)
  then have pop: "\<exists>s2. ISR h (s1\<lparr>TWSR := st\<rparr>) = Some s2 \<and> TWDR s2 = d"
    by (simp add: s1'_def)
  from push has pop show ?thesis by blast
qed

text \<open>
  C6. Let the receive buffer be empty and hold at least two slots. For a bus event with
  status 0x80 or 0x90 (data received, ACK returned) carrying the byte b in TWDR, the
  handler completes, after it twiDataInReceiveBuffer is true, and the next
  twiReceiveByte returns exactly b.
\<close>

theorem ISR_receive_event:
  assumes "header_ok h" "2 \<le> TWI_RX_BUFFER_SIZE h" "bufs_ok h s"
    and "TWSR s = TWI_SRX_ADR_DATA_ACK \<or> TWSR s = TWI_SRX_GEN_DATA_ACK"
    and "TWDR s = b" and "rxHead s = rxTail s"
  shows "\<exists>s' s''. ISR h s = Some s' \<and> twiDataInReceiveBuffer s'
           \<and> twiReceiveByte h s' = Some (b, s'')"
proof -
  from rx_stuff_then_receive [OF assms(1,2,3,6), of b] obtain s1 where
    s1: "twiStuffRxBuf h b s = Some ((), s1)" "twiDataInReceiveBuffer s1"
      "\<forall>c. \<exists>s2. twiReceiveByte h (s1\<lparr>TWCR := c\<rparr>) = Some (b, s2)"
    by blast
  have "ISR h s = Some (s1\<lparr>TWCR := TWCR_next_event\<rparr>)"
    using assms(4,5) s1(1) by (auto simp: ISR_def status_defs)
  moreover have "twiDataInReceiveBuffer (s1\<lparr>TWCR := TWCR_next_event\<rparr>)"
    using s1(2) by (simp add: twiDataInReceiveBuffer_def)
  ultimately show ?thesis using s1(3) by blast
qed

theorem ISR_receive_event_witness:
  "header_ok hdr8 \<and> 2 \<le> TWI_RX_BUFFER_SIZE hdr8
   \<and> bufs_ok hdr8 (st0\<lparr>TWSR := TWI_SRX_ADR_DATA_ACK, TWDR := 0x5A\<rparr>)
   \<and> TWSR (st0\<lparr>TWSR := TWI_SRX_ADR_DATA_ACK, TWDR := 0x5A\<rparr>) = TWI_SRX_ADR_DATA_ACK
   \<and> TWDR (st0\<lparr>TWSR := TWI_SRX_ADR_DATA_ACK, TWDR := 0x5A\<rparr>) = 0x5A
   \<and> rxHead (st0\<lparr>TWSR := TWI_SRX_ADR_DATA_ACK, TWDR := 0x5A\<rparr>)
       = rxTail (st0\<lparr>TWSR := TWI_SRX_ADR_DATA_ACK, TWDR := 0x5A\<rparr>)
   \<and> (\<exists>s' s''. ISR hdr8 (st0\<lparr>TWSR := TWI_SRX_ADR_DATA_ACK, TWDR := 0x5A\<rparr>) = Some s'
         \<and> twiDataInReceiveBuffer s' \<and> twiReceiveByte hdr8 s' = Some (0x5A, s''))"
proof -
  let ?s = "st0\<lparr>TWSR := TWI_SRX_ADR_DATA_ACK, TWDR := 0x5A\<rparr>"
  have a: "2 \<le> TWI_RX_BUFFER_SIZE hdr8" "bufs_ok hdr8 ?s"
    "TWSR ?s = TWI_SRX_ADR_DATA_ACK \<or> TWSR ?s = TWI_SRX_GEN_DATA_ACK"
    "TWDR ?s = 0x5A" "rxHead ?s = rxTail ?s"
    by (simp_all add: hdr8_def bufs_ok_def st0_def)
  show ?thesis
    using ISR_receive_event [OF hdr8_ok a] hdr8_ok a by simp
qed

subsection \<open>Clearing\<close>

text \<open>
  C7. Let both buffers hold at least two slots. In every state, after twiClearOutput
  the transmit buffer reports no data; a twiTransmitByte of d followed by one transmit
  event of the handler then loads exactly d into TWDR. After flushTwiBuffers both
  buffers report no data; a twiStuffRxBuf of d followed by a twiReceiveByte returns
  exactly d, and a twiTransmitByte of d followed by one transmit event loads exactly d.
\<close>

theorem clear_then_push_pop:
  assumes "header_ok h" "2 \<le> TWI_RX_BUFFER_SIZE h" "2 \<le> TWI_TX_BUFFER_SIZE h" "bufs_ok h s"
    and "st = TWI_STX_ADR_ACK \<or> st = TWI_STX_DATA_ACK"
  shows "\<not> twiDataInTransmitBuffer (twiClearOutput s)
       \<and> (\<exists>s1 s2. twiTransmitByte h d (twiClearOutput s) = Some ((), s1)
             \<and> ISR h (s1\<lparr>TWSR := st\<rparr>) = Some s2 \<and> TWDR s2 = d)
       \<and> \<not> twiDataInReceiveBuffer (flushTwiBuffers s)
       \<and> \<not> twiDataInTransmitBuffer (flushTwiBuffers s)
       \<and> (\<exists>s1 s2. twiStuffRxBuf h d (flushTwiBuffers s) = Some ((), s1)
             \<and> twiReceiveByte h s1 = Some (d, s2))
       \<and> (\<exists>s1 s2. twiTransmitByte h d (flushTwiBuffers s) = Some ((), s1)
             \<and> ISR h (s1\<lparr>TWSR := st\<rparr>) = Some s2 \<and> TWDR s2 = d)"
proof -
  have c: "bufs_ok h (twiClearOutput s)" "txHead (twiClearOutput s) = txTail (twiClearOutput s)"
    using assms(4) by (simp_all add: bufs_ok_def twiClearOutput_def)
  have f: "bufs_ok h (flushTwiBuffers s)"
    "txHead (flushTwiBuffers s) = txTail (flushTwiBuffers s)"
    "rxHead (flushTwiBuffers s) = rxTail (flushTwiBuffers s)"
    using assms(4) by (simp_all add: bufs_ok_def flushTwiBuffers_def)
  have 1: "\<not> twiDataInTransmitBuffer (twiClearOutput s)"
    using c(2) by (simp add: twiDataInTransmitBuffer_def)
  have 2: "\<exists>s1 s2. twiTransmitByte h d (twiClearOutput s) = Some ((), s1)
             \<and> ISR h (s1\<lparr>TWSR := st\<rparr>) = Some s2 \<and> TWDR s2 = d"
    using tx_transmit_then_event [OF assms(1,3) c assms(5), of d] by blast
  have 3: "\<not> twiDataInReceiveBuffer (flushTwiBuffers s)"
    using f(3) by (simp add: twiDataInReceiveBuffer_def)
  have 4: "\<not> twiDataInTransmitBuffer (flushTwiBuffers s)"
    using f(2) by (simp add: twiDataInTransmitBuffer_def)
  have 5: "\<exists>s1 s2. twiStuffRxBuf h d (flushTwiBuffers s) = Some ((), s1)
             \<and> twiReceiveByte h s1 = Some (d, s2)"
    using rx_stuff_then_receive [OF assms(1,2) f(1,3), of d] by blast
  have 6: "\<exists>s1 s2. twiTransmitByte h d (flushTwiBuffers s) = Some ((), s1)
             \<and> ISR h (s1\<lparr>TWSR := st\<rparr>) = Some s2 \<and> TWDR s2 = d"
    using tx_transmit_then_event [OF assms(1,3) f(1,2) assms(5), of d] by blast
  from 1 2 3 4 5 6 show ?thesis by blast
qed

theorem clear_then_push_pop_witness:
  "header_ok hdr8 \<and> 2 \<le> TWI_RX_BUFFER_SIZE hdr8 \<and> 2 \<le> TWI_TX_BUFFER_SIZE hdr8
   \<and> bufs_ok hdr8 st_full
   \<and> twiDataInTransmitBuffer st_full \<and> twiDataInReceiveBuffer st_full
   \<and> \<not> twiDataInTransmitBuffer (twiClearOutput st_full)
   \<and> (\<exists>s1 s2. twiTransmitByte hdr8 0x42 (twiClearOutput st_full) = Some ((), s1)
         \<and> ISR hdr8 (s1\<lparr>TWSR := TWI_STX_ADR_ACK\<rparr>) = Some s2 \<and> TWDR s2 = 0x42)
   \<and> \<not> twiDataInReceiveBuffer (flushTwiBuffers st_full)
   \<and> \<not> twiDataInTransmitBuffer (flushTwiBuffers st_full)
   \<and> (\<exists>s1 s2. twiStuffRxBuf hdr8 0x42 (flushTwiBuffers st_full) = Some ((), s1)
         \<and> twiReceiveByte hdr8 s1 = Some (0x42, s2))
   \<and> (\<exists>s1 s2. twiTransmitByte hdr8 0x42 (flushTwiBuffers st_full) = Some ((), s1)
         \<and> ISR hdr8 (s1\<lparr>TWSR := TWI_STX_ADR_ACK\<rparr>) = Some s2 \<and> TWDR s2 = 0x42)"
proof -
  have a: "2 \<le> TWI_RX_BUFFER_SIZE hdr8" "2 \<le> TWI_TX_BUFFER_SIZE hdr8"
    by (simp_all add: hdr8_def)
  have b: "TWI_STX_ADR_ACK = TWI_STX_ADR_ACK \<or> TWI_STX_ADR_ACK = TWI_STX_DATA_ACK"
    by simp
  have c: "twiDataInTransmitBuffer st_full" "twiDataInReceiveBuffer st_full"
    by (simp_all add: twiDataInTransmitBuffer_def twiDataInReceiveBuffer_def st_full_def st0_def)
  show ?thesis
    using clear_then_push_pop [OF hdr8_ok a st_full_ok(1) b, of "0x42"] hdr8_ok a st_full_ok(1) c
    by simp
qed

subsection \<open>An empty receive buffer\<close>

text \<open>
  C3. In every state whose receive buffer is empty (rxHead equal to rxTail),
  twiReceiveByte returns the byte 0x88 and leaves the whole state as it was; rxTail in
  particular does not advance.
\<close>

theorem twiReceiveByte_empty:
  assumes "rxHead s = rxTail s"
  shows "twiReceiveByte h s = Some (0x88, s)"
  using assms by (simp add: twiReceiveByte_def)

theorem twiReceiveByte_empty_witness:
  "rxHead st0 = rxTail st0 \<and> twiReceiveByte hdr8 st0 = Some (0x88, st0)"
proof -
  have e: "rxHead st0 = rxTail st0" by (simp add: st0_def)
  show ?thesis using e twiReceiveByte_empty [OF e, of hdr8] by simp
qed

subsection \<open>The error class of the handler\<close>

lemma TWCR_recover_bits: "bit TWCR_recover i = (i = TWSTO \<or> i = TWINT)"
  unfolding TWCR_recover_def bit_defs bit_or_iff bit_push_bit_iff bit_1_iff
  by auto

text \<open>
  C5. For a status code of the error class (0x88 and 0x98: data received, not-ack
  returned; 0xC8: last byte transmitted; 0xF8: no relevant state; 0x00: bus error) and
  any state of the buffers, the handler writes the control register with exactly the
  bits TWSTO and TWINT set, so neither TWEN, TWIE nor TWEA, and changes nothing else:
  both arrays, both heads and both tails are as before.
\<close>

theorem ISR_error_class:
  assumes "TWSR s \<in> {TWI_SRX_ADR_DATA_NACK, TWI_SRX_GEN_DATA_NACK, TWI_STX_DATA_ACK_LAST_BYTE,
                      TWI_NO_STATE, TWI_BUS_ERROR}"
  shows "\<exists>s'. ISR h s = Some s' \<and> s' = s\<lparr>TWCR := TWCR s'\<rparr>
           \<and> (\<forall>i. bit (TWCR s') i = (i = TWSTO \<or> i = TWINT))
           \<and> rxBuf s' = rxBuf s \<and> rxHead s' = rxHead s \<and> rxTail s' = rxTail s
           \<and> txBuf s' = txBuf s \<and> txHead s' = txHead s \<and> txTail s' = txTail s"
proof -
  have "ISR h s = Some (s\<lparr>TWCR := TWCR_recover\<rparr>)"
    using assms by (auto simp: ISR_def status_defs)
  then show ?thesis by (simp add: TWCR_recover_bits)
qed

theorem ISR_error_class_witness:
  "TWSR (st0\<lparr>TWSR := TWI_BUS_ERROR\<rparr>) \<in> {TWI_SRX_ADR_DATA_NACK, TWI_SRX_GEN_DATA_NACK,
      TWI_STX_DATA_ACK_LAST_BYTE, TWI_NO_STATE, TWI_BUS_ERROR}
   \<and> (\<exists>s'. ISR hdr8 (st0\<lparr>TWSR := TWI_BUS_ERROR\<rparr>) = Some s' \<and> TWCR s' = 0x90
           \<and> rxBuf s' = rxBuf st0 \<and> rxHead s' = rxHead st0 \<and> rxTail s' = rxTail st0
           \<and> txBuf s' = txBuf st0 \<and> txHead s' = txHead st0 \<and> txTail s' = txTail st0)"
proof -
  let ?s = "st0\<lparr>TWSR := TWI_BUS_ERROR\<rparr>"
  have e: "TWSR ?s \<in> {TWI_SRX_ADR_DATA_NACK, TWI_SRX_GEN_DATA_NACK,
      TWI_STX_DATA_ACK_LAST_BYTE, TWI_NO_STATE, TWI_BUS_ERROR}" by simp
  from ISR_error_class [OF e, of hdr8] obtain s' where
    s': "ISR hdr8 ?s = Some s'" "rxBuf s' = rxBuf ?s" "rxHead s' = rxHead ?s"
      "rxTail s' = rxTail ?s" "txBuf s' = txBuf ?s" "txHead s' = txHead ?s" "txTail s' = txTail ?s"
    by blast
  have "ISR hdr8 ?s = Some (?s\<lparr>TWCR := 0x90\<rparr>)"
    by (simp add: ISR_def status_defs TWCR_recover_def bit_defs)
  with s'(1) have "s' = ?s\<lparr>TWCR := 0x90\<rparr>" by simp
  then have "TWCR s' = 0x90" by simp
  with e s' show ?thesis by simp
qed

subsection \<open>Initialisation and enabling\<close>

text \<open>
  C8. For every 7-bit address a (a below 128), twiSlaveInit writes the own-address
  register TWAR with a in its upper seven bits, and writes the control register TWCR
  with the enable bit TWEN set and the interrupt-enable bit TWIE and the acknowledge bit
  TWEA clear. twiSlaveEnable is the call that sets TWIE and TWEA (and keeps TWEN).
\<close>

theorem twiSlaveInit_registers:
  assumes "a < 128"
  shows "drop_bit 1 (TWAR (twiSlaveInit a s)) = a
       \<and> bit (TWCR (twiSlaveInit a s)) TWEN
       \<and> \<not> bit (TWCR (twiSlaveInit a s)) TWIE
       \<and> \<not> bit (TWCR (twiSlaveInit a s)) TWEA
       \<and> bit (TWCR (twiSlaveEnable (twiSlaveInit a s))) TWEN
       \<and> bit (TWCR (twiSlaveEnable (twiSlaveInit a s))) TWIE
       \<and> bit (TWCR (twiSlaveEnable (twiSlaveInit a s))) TWEA"
proof -
  have "take_bit 7 a = a"
    using assms less_mask_eq [of a 7] by (simp add: take_bit_eq_mask)
  moreover have "drop_bit 1 (push_bit 1 a) = take_bit 7 a"
    by (rule bit_word_eqI) (simp only: bit_drop_bit_eq o_apply bit_push_bit_iff bit_take_bit_iff, auto simp: possible_bit_word)
  ultimately have "drop_bit 1 (push_bit 1 a) = a"
    by simp
  then show ?thesis
    by (simp add: twiSlaveInit_def twiSlaveEnable_def bit_defs bit_or_iff bit_push_bit_iff)
qed

theorem twiSlaveInit_registers_witness:
  "(0x2A :: u8) < 128 \<and> TWAR (twiSlaveInit 0x2A st0) = 0x54
   \<and> drop_bit 1 (TWAR (twiSlaveInit 0x2A st0)) = 0x2A
   \<and> TWCR (twiSlaveInit 0x2A st0) = 0x04
   \<and> TWCR (twiSlaveEnable (twiSlaveInit 0x2A st0)) = 0xC5"
proof -
  have a: "(0x2A :: u8) < 128" by simp
  show ?thesis
    using a twiSlaveInit_registers [OF a, of st0]
    by (simp add: twiSlaveInit_def twiSlaveEnable_def bit_defs)
qed

text \<open>
  C10. For every address a, twiSlaveInit writes TWAR with bit 0, the general-call
  recognition enable, clear. The handler all the same has branches for the general-call
  status codes: 0x70 re-arms, 0x90 puts the received byte into the receive buffer and
  re-arms, 0x98 is in the error class.
\<close>

theorem twiSlaveInit_general_call_off:
  "\<not> bit (TWAR (twiSlaveInit a s)) 0
   \<and> ISR h (s\<lparr>TWSR := TWI_SRX_GEN_ACK\<rparr>) = Some (s\<lparr>TWSR := TWI_SRX_GEN_ACK, TWCR := TWCR_next_event\<rparr>)
   \<and> ISR h (s\<lparr>TWSR := TWI_SRX_GEN_DATA_ACK\<rparr>) =
       map_option (\<lambda>(u, s'). s'\<lparr>TWCR := TWCR_next_event\<rparr>)
         (twiStuffRxBuf h (TWDR s) (s\<lparr>TWSR := TWI_SRX_GEN_DATA_ACK\<rparr>))
   \<and> ISR h (s\<lparr>TWSR := TWI_SRX_GEN_DATA_NACK\<rparr>) =
       Some (s\<lparr>TWSR := TWI_SRX_GEN_DATA_NACK, TWCR := TWCR_recover\<rparr>)"
  by (simp add: twiSlaveInit_def bit_0 ISR_def status_defs split: option.split)

theorem twiSlaveInit_general_call_off_witness:
  "TWAR (twiSlaveInit 0xFF st0) = 0xFE \<and> \<not> bit (TWAR (twiSlaveInit 0xFF st0)) 0"
  using twiSlaveInit_general_call_off [of "0xFF" st0 hdr8]
  by (simp add: twiSlaveInit_def)


subsection \<open>Indices in bounds\<close>

lemma twiStuffRxBuf_inv:
  assumes "header_ok h" "bufs_ok h s" "idx_ok h s"
  shows "\<exists>s'. twiStuffRxBuf h d s = Some ((), s') \<and> bufs_ok h s' \<and> idx_ok h s'"
proof (cases "rx_pending h s = TWI_RX_BUFFER_SIZE h - 1")
  case True
  with assms show ?thesis by (simp add: twiStuffRxBuf_full)
next
  case False
  from twiStuffRxBuf_room [OF assms False, of d] show ?thesis by blast
qed

lemma twiTransmitByte_inv:
  assumes "header_ok h" "bufs_ok h s" "idx_ok h s"
  shows "\<exists>s'. twiTransmitByte h d s = Some ((), s') \<and> bufs_ok h s' \<and> idx_ok h s'"
proof (cases "tx_pending h s = TWI_TX_BUFFER_SIZE h - 1")
  case True
  with assms show ?thesis by (simp add: twiTransmitByte_full)
next
  case False
  from twiTransmitByte_room [OF assms False, of d] show ?thesis by blast
qed

lemma twiReceiveByte_inv:
  assumes "header_ok h" "bufs_ok h s" "idx_ok h s"
  shows "\<exists>v s'. twiReceiveByte h s = Some (v, s') \<and> bufs_ok h s' \<and> idx_ok h s'"
proof (cases "rxHead s = rxTail s")
  case True
  with assms show ?thesis by (simp add: twiReceiveByte_def)
next
  case False
  from twiReceiveByte_data [OF assms False] show ?thesis by blast
qed

lemma TWCR_update_ok:
  "bufs_ok h (s\<lparr>TWCR := c\<rparr>) = bufs_ok h s" "idx_ok h (s\<lparr>TWCR := c\<rparr>) = idx_ok h s"
  by (simp_all add: bufs_ok_def idx_ok_def)

lemma ISR_inv:
  assumes "header_ok h" "bufs_ok h s" "idx_ok h s"
  shows "\<exists>s'. ISR h s = Some s' \<and> bufs_ok h s' \<and> idx_ok h s'"
proof -
  consider (rx) "TWSR s = TWI_SRX_ADR_DATA_ACK \<or> TWSR s = TWI_SRX_GEN_DATA_ACK"
    | (tx) "TWSR s = TWI_STX_ADR_ACK \<or> TWSR s = TWI_STX_DATA_ACK"
    | (other) "TWSR s \<noteq> TWI_SRX_ADR_DATA_ACK" "TWSR s \<noteq> TWI_SRX_GEN_DATA_ACK"
        "TWSR s \<noteq> TWI_STX_ADR_ACK" "TWSR s \<noteq> TWI_STX_DATA_ACK"
    by blast
  then show ?thesis
  proof cases
    case rx
    from twiStuffRxBuf_inv [OF assms, of "TWDR s"] obtain s1 where
      s1: "twiStuffRxBuf h (TWDR s) s = Some ((), s1)" "bufs_ok h s1" "idx_ok h s1"
      by blast
    have "ISR h s = Some (s1\<lparr>TWCR := TWCR_next_event\<rparr>)"
      using rx s1(1) by (auto simp: ISR_def status_defs)
    with s1(2,3) show ?thesis by (simp add: TWCR_update_ok)
  next
    case tx
    show ?thesis
    proof (cases "txHead s = txTail s")
      case True
      with tx have "ISR h s = Some (s\<lparr>TWDR := 0x88, TWCR := TWCR_next_event\<rparr>)"
        by (auto simp: ISR_def status_defs)
      with assms(2,3) show ?thesis by (simp add: bufs_ok_def idx_ok_def)
    next
      case False
      from ISR_tx_data [OF assms tx False] show ?thesis by blast
    qed
  next
    case other
    then have "ISR h s = Some (s\<lparr>TWCR := TWCR_next_event\<rparr>)
             \<or> ISR h s = Some (s\<lparr>TWCR := TWCR_recover\<rparr>)"
      by (simp add: ISR_def Let_def)
    with assms(2,3) show ?thesis by (auto simp: TWCR_update_ok)
  qed
qed

lemma call_inv:
  assumes "header_ok h" "bufs_ok h s" "idx_ok h s"
  shows "\<exists>s'. call h c s = Some s' \<and> bufs_ok h s' \<and> idx_ok h s'"
proof (cases c)
  case Call_flushTwiBuffers
  with assms show ?thesis
    by (simp add: flushTwiBuffers_def bufs_ok_def idx_ok_def header_ok_def buffer_size_pos)
next
  case (Call_twiSlaveInit a)
  with assms(2,3) show ?thesis
    by (simp add: twiSlaveInit_def bufs_ok_def idx_ok_def)
next
  case Call_twiSlaveEnable
  with assms(2,3) show ?thesis
    by (simp add: twiSlaveEnable_def bufs_ok_def idx_ok_def)
next
  case (Call_twiTransmitByte d)
  from twiTransmitByte_inv [OF assms, of d] Call_twiTransmitByte show ?thesis by auto
next
  case Call_twiReceiveByte
  from twiReceiveByte_inv [OF assms] Call_twiReceiveByte show ?thesis by auto
next
  case Call_twiClearOutput
  with assms show ?thesis
    by (simp add: twiClearOutput_def bufs_ok_def idx_ok_def header_ok_def buffer_size_pos)
next
  case (Call_twiStuffRxBuf d)
  from twiStuffRxBuf_inv [OF assms, of d] Call_twiStuffRxBuf show ?thesis by auto
next
  case (Bus_event status data)
  have "bufs_ok h (s\<lparr>TWSR := status, TWDR := data\<rparr>)" "idx_ok h (s\<lparr>TWSR := status, TWDR := data\<rparr>)"
    using assms(2,3) by (simp_all add: bufs_ok_def idx_ok_def)
  from ISR_inv [OF assms(1) this] Bus_event show ?thesis by simp
qed

lemma run_calls_inv:
  assumes "header_ok h"
  shows "bufs_ok h s \<Longrightarrow> idx_ok h s \<Longrightarrow>
         \<exists>s'. run_calls h cs s = Some s' \<and> bufs_ok h s' \<and> idx_ok h s'"
proof (induction cs arbitrary: s)
  case Nil
  then show ?case by simp
next
  case (Cons c cs)
  from call_inv [OF assms Cons.prems, of c] obtain s1 where
    s1: "call h c s = Some s1" "bufs_ok h s1" "idx_ok h s1"
    by blast
  from Cons.IH [OF s1(2,3)] s1(1) show ?case by simp
qed

text \<open>
  C9. From the state in which the statics are zero, any sequence of calls of
  twiTransmitByte, twiReceiveByte, twiStuffRxBuf, twiClearOutput, flushTwiBuffers,
  twiSlaveInit and twiSlaveEnable and of bus events with any status code and data byte
  runs to its end with no array access out of bounds, and ends in a state in which
  rxHead, rxTail, txHead and txTail are below the size of their buffer.
\<close>

theorem indices_in_bounds:
  assumes "header_ok h" "zero_init h s"
  shows "\<exists>s'. run_calls h cs s = Some s' \<and> idx_ok h s'"
proof -
  have "bufs_ok h s" "idx_ok h s"
    using assms by (simp_all add: zero_init_def bufs_ok_def idx_ok_def header_ok_def buffer_size_pos)
  from run_calls_inv [OF assms(1) this, of cs] show ?thesis by blast
qed

theorem indices_in_bounds_witness:
  "header_ok hdr8 \<and> zero_init hdr8 st0
   \<and> (\<exists>s'. run_calls hdr8 [Call_twiStuffRxBuf 0x11, Bus_event 0x80 0x5A, Call_twiTransmitByte 0x22,
               Bus_event 0xA8 0, Bus_event 0xB8 0, Call_twiReceiveByte, Bus_event 0x00 0,
               Call_twiClearOutput, Call_flushTwiBuffers] st0 = Some s'
         \<and> idx_ok hdr8 s')"
proof -
  have z: "zero_init hdr8 st0"
    by (simp add: zero_init_def hdr8_def st0_def numeral_eq_Suc)
  from indices_in_bounds [OF hdr8_ok z] hdr8_ok z show ?thesis by blast
qed

end
